theory Spec2Isabelle
  imports Complex_Main "HOL-Library.Sublist" "HOL-Library.Multiset" "HOL-Library.Log_Nat"
begin

section \<open>The index document\<close>

text \<open>
  The presentation layer (\<^verbatim>\<open>App\<close> and \<^verbatim>\<open>MediaCard\<close>) reads one JSON document,
  \<^verbatim>\<open>media_index.json\<close>. Its records are modelled with the fields the two components
  read. A JSON field that may be \<^verbatim>\<open>null\<close> or absent is an \<open>option\<close>.
\<close>

datatype date_value = DateNull | DateUndefined | DateString string

datatype js_number = Null | Undefined | Num real

record file_metadata =
  creationDate :: date_value
  duration :: js_number
  fileSize :: nat

record thumbnails_rec =
  main :: "string option"
  frames :: "string list"

record google_drive =
  url :: "string option"

record media_file =
  file_id :: string
  type :: string
  fileName :: "nat list"
  relativePath :: "nat list"
  metadata :: file_metadata
  thumbnails :: thumbnails_rec
  googleDrive :: "google_drive option"

record stats_rec =
  images :: nat
  videos :: nat
  audio :: nat

record document_metadata =
  generatedAt :: "string option"
  sourceVolume :: "string option"
  stats :: "stats_rec option"

record index_document =
  doc_metadata :: "document_metadata option"
  files :: "media_file list"

section \<open>App: filtering\<close>

text \<open>
  A JavaScript string is a sequence of UTF-16 code units. The file name, the path and
  the search query, which the filter lower-cases and searches, are lists of code units
  (numbers); \<open>code_units\<close> writes a text of code units below 256.
  \<^verbatim>\<open>String.prototype.toLowerCase\<close> is the engine's, with the case mappings of Unicode: a
  parameter \<open>toLowerCase\<close> of the functions that use it. \<^verbatim>\<open>String.prototype.includes\<close>
  looks for its argument at every position.
\<close>

definition code_units :: "string \<Rightarrow> nat list" where
  "code_units s = map of_char s"

fun String_includes :: "'a list \<Rightarrow> 'a list \<Rightarrow> bool" where
  "String_includes [] q = (q = [])"
| "String_includes (c # s) q = (prefix q (c # s) \<or> String_includes s q)"

text \<open>The two filters of \<^verbatim>\<open>groupedByDate\<close>, in the order the code applies them.\<close>

definition filterByType :: "string \<Rightarrow> media_file list \<Rightarrow> media_file list" where
  "filterByType filterType fs =
     (if filterType \<noteq> ''all'' then filter (\<lambda>file. type file = filterType) fs else fs)"

definition filterBySearch ::
  "(nat list \<Rightarrow> nat list) \<Rightarrow> nat list \<Rightarrow> media_file list \<Rightarrow> media_file list" where
  "filterBySearch toLowerCase searchQuery fs =
     (if searchQuery \<noteq> [] then
        (let query = toLowerCase searchQuery
         in filter (\<lambda>file. String_includes (toLowerCase (fileName file)) query \<or>
                           String_includes (toLowerCase (relativePath file)) query) fs)
      else fs)"

definition filtered ::
  "(nat list \<Rightarrow> nat list) \<Rightarrow> index_document \<Rightarrow> string \<Rightarrow> nat list \<Rightarrow> media_file list" where
  "filtered toLowerCase mediaData filterType searchQuery =
     filterBySearch toLowerCase searchQuery (filterByType filterType (files mediaData))"

section \<open>App: grouping by date\<close>

text \<open>
  \<^verbatim>\<open>new Date(v).getTime()\<close>: the time value in milliseconds, \<open>None\<close> for an invalid date
  (\<^verbatim>\<open>NaN\<close>). \<^verbatim>\<open>new Date(null)\<close> is the epoch and \<^verbatim>\<open>new Date(undefined)\<close>, for a field
  that is absent, is invalid. How a string is read is the engine's \<^verbatim>\<open>Date.parse\<close>, a
  parameter here.
\<close>

fun Date_getTime :: "(string \<Rightarrow> int option) \<Rightarrow> date_value \<Rightarrow> int option" where
  "Date_getTime parse DateNull = Some 0"
| "Date_getTime parse DateUndefined = None"
| "Date_getTime parse (DateString s) = parse s"

text \<open>
  The key of a group. \<^verbatim>\<open>date.toISOString().split('T')[0]\<close> is the UTC calendar day of the
  time value, written \<^verbatim>\<open>YYYY-MM-DD\<close>; the key \<open>Day d\<close> stands for that string, \<open>d\<close> the
  number of the day counted from the epoch, and \<^verbatim>\<open>new Date(key)\<close> is midnight UTC of the
  same day. \<open>Unknown_date\<close> is the key \<^verbatim>\<open>'unknown-date'\<close>.
\<close>

datatype date_key = Day int | Unknown_date

definition dateKey :: "(string \<Rightarrow> int option) \<Rightarrow> media_file \<Rightarrow> date_key" where
  "dateKey parse file =
     (case Date_getTime parse (creationDate (metadata file)) of
        Some t \<Rightarrow> Day (t div 86400000)
      | None \<Rightarrow> Unknown_date)"

text \<open>
  A JavaScript object with string keys that are not array indices: its own properties
  in insertion order. Assigning to a key it has keeps the key's place.
\<close>

fun obj_set :: "('k \<times> 'v) list \<Rightarrow> 'k \<Rightarrow> 'v \<Rightarrow> ('k \<times> 'v) list" where
  "obj_set [] k v = [(k, v)]"
| "obj_set ((k', v') # kvs) k v =
     (if k' = k then (k, v) # kvs else (k', v') # obj_set kvs k v)"

text \<open>The body of the first \<^verbatim>\<open>reduce\<close>: create the group if it is missing, then push.\<close>

definition group_step ::
  "(string \<Rightarrow> int option) \<Rightarrow> (date_key \<times> media_file list) list \<Rightarrow> media_file
     \<Rightarrow> (date_key \<times> media_file list) list" where
  "group_step parse acc file =
     (let k = dateKey parse file;
          acc1 = (case map_of acc k of None \<Rightarrow> obj_set acc k [] | Some _ \<Rightarrow> acc)
      in case map_of acc1 k of
           Some fs \<Rightarrow> obj_set acc1 k (fs @ [file])
         | None \<Rightarrow> acc1)"

definition grouped ::
  "(string \<Rightarrow> int option) \<Rightarrow> media_file list \<Rightarrow> (date_key \<times> media_file list) list" where
  "grouped parse fs = foldl (group_step parse) [] fs"

text \<open>
  The comparison function given to \<^verbatim>\<open>sort\<close>. The difference of two dates is in
  milliseconds.
\<close>

fun compareKeys :: "date_key \<Rightarrow> date_key \<Rightarrow> int" where
  "compareKeys Unknown_date b = 1"
| "compareKeys a Unknown_date = - 1"
| "compareKeys (Day a) (Day b) = b * 86400000 - a * 86400000"

text \<open>
  \<^verbatim>\<open>Array.prototype.sort\<close> with a comparison function is a stable sort: an element
  goes after the ones it does not precede. It is written as an insertion sort. The
  keys of an object are distinct, and on distinct keys the order does not depend on
  the algorithm: an arrangement of the keys in which no key stands after one it
  compares below is the one computed here (lemma \<open>Array_sort_any_algorithm\<close>).
\<close>

fun sort_insert :: "('a \<Rightarrow> 'a \<Rightarrow> int) \<Rightarrow> 'a \<Rightarrow> 'a list \<Rightarrow> 'a list" where
  "sort_insert cmp x [] = [x]"
| "sort_insert cmp x (y # ys) =
     (if cmp x y \<le> 0 then x # y # ys else y # sort_insert cmp x ys)"

definition Array_sort :: "('a \<Rightarrow> 'a \<Rightarrow> int) \<Rightarrow> 'a list \<Rightarrow> 'a list" where
  "Array_sort cmp xs = foldr (sort_insert cmp) xs []"

text \<open>
  \<^verbatim>\<open>groupedByDate\<close>: no document gives the empty object. The second \<^verbatim>\<open>reduce\<close> copies
  each group under its key, in the sorted order; a key of \<^verbatim>\<open>Object.keys(grouped)\<close> always
  has a group, so its \<open>None\<close> branch is never taken (lemma \<open>grouped_lookup\<close>).
\<close>

definition groupedByDate ::
  "(string \<Rightarrow> int option) \<Rightarrow> (nat list \<Rightarrow> nat list) \<Rightarrow> index_document option \<Rightarrow> string
     \<Rightarrow> nat list \<Rightarrow> (date_key \<times> media_file list) list" where
  "groupedByDate parse toLowerCase mediaData filterType searchQuery =
     (case mediaData of
        None \<Rightarrow> []
      | Some doc \<Rightarrow>
          (let g = grouped parse (filtered toLowerCase doc filterType searchQuery)
           in foldl (\<lambda>acc key. case map_of g key of
                                  Some fs \<Rightarrow> obj_set acc key fs
                                | None \<Rightarrow> acc)
                [] (Array_sort compareKeys (map fst g))))"

text \<open>The header: the statistics with their fallback, and the number of files shown.\<close>

definition header_stats :: "index_document \<Rightarrow> stats_rec" where
  "header_stats mediaData =
     (case doc_metadata mediaData of
        None \<Rightarrow> \<lparr>images = 0, videos = 0, audio = 0\<rparr>
      | Some m \<Rightarrow>
          (case stats m of
             None \<Rightarrow> \<lparr>images = 0, videos = 0, audio = 0\<rparr>
           | Some s \<Rightarrow> s))"

definition totalFiles :: "(date_key \<times> media_file list) list \<Rightarrow> nat" where
  "totalFiles groupedByDate_value =
     foldl (\<lambda>sum fs. sum + length fs) 0 (map snd groupedByDate_value)"

text \<open>The cards of the grid, group after group, as \<^verbatim>\<open>Object.entries\<close> lists them.\<close>

definition displayed :: "(date_key \<times> media_file list) list \<Rightarrow> media_file list" where
  "displayed groupedByDate_value = concat (map snd groupedByDate_value)"

text \<open>
  The orders and predicates the properties are stated with: a key comes before another
  when its day is later, and every day comes before \<^verbatim>\<open>'unknown-date'\<close>; a string contains
  another ignoring case when one of its substrings differs from it in the case of
  letters only, that is, has the same lower-casing.
\<close>

fun date_desc :: "date_key \<Rightarrow> date_key \<Rightarrow> bool" where
  "date_desc (Day a) (Day b) = (b < a)"
| "date_desc (Day a) Unknown_date = True"
| "date_desc Unknown_date b = False"


section \<open>App: loading the document\<close>

text \<open>
  \<^verbatim>\<open>String(n)\<close> for an integer: its decimal digits, with a minus sign when negative.
  JavaScript writes these digits for the integers below \<open>2^53\<close> in absolute value: every
  clock reading (at most \<open>8.64 * 10^15\<close>) and every number the formatting functions
  give it.
\<close>

definition digit_char :: "nat \<Rightarrow> char" where
  "digit_char d = char_of (48 + d)"

function string_of_nat :: "nat \<Rightarrow> string" where
  "string_of_nat n =
     (if n < 10 then [digit_char n] else string_of_nat (n div 10) @ [digit_char (n mod 10)])"
  by pat_completeness auto
termination
  by (relation "measure (\<lambda>n. n)") auto

declare string_of_nat.simps [simp del]

definition String_of_int :: "int \<Rightarrow> string" where
  "String_of_int i = (if i < 0 then ''-'' @ string_of_nat (nat (- i)) else string_of_nat (nat i))"

text \<open>
  The mount effect of \<^verbatim>\<open>App\<close> fetches one URL, built from the base URL of the build and
  \<^verbatim>\<open>Date.now()\<close>, the clock in milliseconds.
\<close>

definition fetch_url :: "string \<Rightarrow> int \<Rightarrow> string" where
  "fetch_url base_url now = base_url @ ''media_index.json?t='' @ String_of_int now"

section \<open>MediaCard: formatting\<close>







definition array_get :: "'a list \<Rightarrow> int \<Rightarrow> 'a option" where
  "array_get xs i = (if 0 \<le> i \<and> i < int (length xs) then Some (xs ! nat i) else None)"



text \<open>The same quantities in integer arithmetic, to state what the functions return.\<close>

definition two_digits :: "nat \<Rightarrow> string" where
  "two_digits n = [digit_char (n div 10 mod 10), digit_char (n mod 10)]"


section \<open>MediaCard: the card\<close>

text \<open>
  The state of one card: the two \<^verbatim>\<open>useState\<close> values, the timer id held by
  \<^verbatim>\<open>intervalRef\<close>, the browser's side of it (the intervals that are running and the
  next id \<^verbatim>\<open>setInterval\<close> returns; ids are positive), and whether the effect of the
  render React has committed is still to run.
\<close>

record card_state =
  currentFrame :: nat
  isHovering :: bool
  intervalRef :: "nat option"
  running :: "nat set"
  next_id :: nat
  effect_pending :: bool

definition cycles :: "media_file \<Rightarrow> bool" where
  "cycles file = (type file = ''video'' \<and> length (frames (thumbnails file)) > 0)"

text \<open>The function the effect returns: it clears the interval the ref holds.\<close>

definition cleanup :: "card_state \<Rightarrow> card_state" where
  "cleanup s =
     (case intervalRef s of
        Some t \<Rightarrow> s\<lparr>running := running s - {t}\<rparr>
      | None \<Rightarrow> s)"

text \<open>
  The body of the effect; its \<^verbatim>\<open>else\<close> branch clears the interval with the statement
  the cleanup has. The update \<^verbatim>\<open>setCurrentFrame(0)\<close> it makes changes no dependency of the
  effect, and React renders it before it handles another event.
\<close>

definition effect :: "media_file \<Rightarrow> card_state \<Rightarrow> card_state" where
  "effect file s =
     (if isHovering s \<and> type file = ''video'' \<and> length (frames (thumbnails file)) > 0 then
        s\<lparr>intervalRef := Some (next_id s),
          running := insert (next_id s) (running s),
          next_id := next_id s + 1\<rparr>
      else (cleanup s)\<lparr>currentFrame := 0\<rparr>)"

text \<open>
  React runs the effect after it has committed the render, not with the state update:
  a render whose dependency \<^verbatim>\<open>isHovering\<close> has changed is committed with the effect
  pending, and the card shows that state until the effect runs. When it runs, the
  function the previous effect returned is called first. (The first effect has no
  previous one; the ref is empty then and the cleanup does nothing.)
\<close>

definition flush_effects :: "media_file \<Rightarrow> card_state \<Rightarrow> card_state" where
  "flush_effects file s =
     (if effect_pending s then (effect file (cleanup s))\<lparr>effect_pending := False\<rparr> else s)"

text \<open>
  The events. \<^verbatim>\<open>setIsHovering\<close> with the value the state has does nothing; with a new
  value React re-renders, and before it renders an update it runs the effects that
  are pending. The callback of a running interval applies its update to the frame
  index, and React renders that update in the same way; an interval that was cleared
  does not call back. An interval runs only for a video with frames (lemma
  \<open>card_inv_run\<close>), so the callback never divides by 0. The file of a card does not
  change.
\<close>

definition setIsHovering :: "media_file \<Rightarrow> bool \<Rightarrow> card_state \<Rightarrow> card_state" where
  "setIsHovering file v s =
     (if isHovering s = v then s
      else (flush_effects file s)\<lparr>isHovering := v, effect_pending := True\<rparr>)"

definition interval_callback :: "media_file \<Rightarrow> nat \<Rightarrow> card_state \<Rightarrow> card_state" where
  "interval_callback file t s =
     (if t \<in> running s then
        flush_effects file
          (s\<lparr>currentFrame := (currentFrame s + 1) mod length (frames (thumbnails file))\<rparr>)
      else s)"

datatype event = MouseEnter | MouseLeave | Tick nat | Effects

fun step :: "media_file \<Rightarrow> card_state \<Rightarrow> event \<Rightarrow> card_state" where
  "step file s MouseEnter = setIsHovering file True s"
| "step file s MouseLeave = setIsHovering file False s"
| "step file s (Tick t) = interval_callback file t s"
| "step file s Effects = flush_effects file s"

text \<open>The first render, committed with its effect pending.\<close>

definition mount :: "media_file \<Rightarrow> card_state" where
  "mount file =
     \<lparr>currentFrame = 0, isHovering = False, intervalRef = None, running = {}, next_id = 1,
      effect_pending = True\<rparr>"

definition run :: "media_file \<Rightarrow> event list \<Rightarrow> card_state" where
  "run file events = foldl (step file) (mount file) events"

text \<open>What the card shows in the thumbnail area.\<close>

definition thumbnail :: "media_file \<Rightarrow> card_state \<Rightarrow> string option" where
  "thumbnail file s =
     (if type file = ''video'' \<and> length (frames (thumbnails file)) > 0 then
        array_get (frames (thumbnails file)) (int (currentFrame s))
      else main (thumbnails file))"

datatype icon = VideoIcon | AudioIcon | ImageIcon

definition getTypeIcon :: "media_file \<Rightarrow> icon option" where
  "getTypeIcon file =
     (if type file = ''video'' then Some VideoIcon
      else if type file = ''audio'' then Some AudioIcon
      else if type file = ''image'' then Some ImageIcon
      else None)"

datatype thumbnail_view = Img string "nat list" | NoThumbnail "icon option"

definition render_thumbnail :: "media_file \<Rightarrow> card_state \<Rightarrow> thumbnail_view" where
  "render_thumbnail file s =
     (case thumbnail file s of
        Some t \<Rightarrow> if t \<noteq> [] then Img (''/'' @ t) (fileName file) else NoThumbnail (getTypeIcon file)
      | None \<Rightarrow> NoThumbnail (getTypeIcon file))"

text \<open>
  The click. \<^verbatim>\<open>String.prototype.trim\<close> strips white space from both ends; of the code
  units below 256 these are tab, line feed, vertical tab, form feed, carriage return,
  space and the no-break space.
\<close>

definition is_whitespace :: "char \<Rightarrow> bool" where
  "is_whitespace c = ((of_char c :: nat) \<in> {9, 10, 11, 12, 13, 32, 160})"

definition trim :: "string \<Rightarrow> string" where
  "trim s = rev (dropWhile is_whitespace (rev (dropWhile is_whitespace s)))"

definition hasDriveUrl :: "media_file \<Rightarrow> bool" where
  "hasDriveUrl file =
     (case googleDrive file of
        None \<Rightarrow> False
      | Some g \<Rightarrow>
          (case url g of
             None \<Rightarrow> False
           | Some u \<Rightarrow> u \<noteq> [] \<and> trim u \<noteq> []))"

datatype action = Window_open string string string

definition handleClick :: "media_file \<Rightarrow> action option" where
  "handleClick file =
     (if hasDriveUrl file then
        (case googleDrive file of
           Some g \<Rightarrow>
             (case url g of
                Some u \<Rightarrow> Some (Window_open u ''_blank'' ''noopener,noreferrer'')
              | None \<Rightarrow> None)
         | None \<Rightarrow> None)
      else None)"

section \<open>An example document\<close>

text \<open>
  Four files: two with dates the parser reads, one whose date it does not read, and
  one with no date (\<^verbatim>\<open>null\<close>). The document has no \<^verbatim>\<open>metadata\<close> field.
\<close>

definition example_parse :: "string \<Rightarrow> int option" where
  "example_parse s =
     (if s = ''2023-05-01T10:00:00Z'' then Some 1682935200000
      else if s = ''2023-11-14T22:13:20Z'' then Some 1700000000000
      else if s = ''1969-12-31T12:00:00Z'' then Some (- 43200000)
      else None)"

definition example_file :: "string \<Rightarrow> string \<Rightarrow> date_value \<Rightarrow> media_file" where
  "example_file t n d =
     \<lparr>file_id = n, type = t, fileName = code_units n, relativePath = code_units (''media/'' @ n),
      metadata = \<lparr>creationDate = d, duration = Null, fileSize = 0\<rparr>,
      thumbnails = \<lparr>main = None, frames = []\<rparr>, googleDrive = None\<rparr>"

definition example_document :: index_document where
  "example_document =
     \<lparr>doc_metadata = None,
      files =
        [example_file ''image'' ''a.jpg'' (DateString ''2023-05-01T10:00:00Z''),
         example_file ''video'' ''b.mp4'' (DateString ''garbage''),
         example_file ''audio'' ''C.mp3'' (DateString ''2023-11-14T22:13:20Z''),
         example_file ''image'' ''d.png'' DateNull]\<rparr>"

text \<open>
  A document of two images: one whose \<^verbatim>\<open>creationDate\<close> is \<^verbatim>\<open>null\<close>, the date that could
  not be recovered, and one from the last day of 1969.
\<close>

definition undated_document :: index_document where
  "undated_document =
     \<lparr>doc_metadata = None,
      files =
        [example_file ''image'' ''nodate.jpg'' DateNull,
         example_file ''image'' ''old.jpg'' (DateString ''1969-12-31T12:00:00Z'')]\<rparr>"

text \<open>
  A lower-casing function for the examples. It maps the capital letters of ASCII,
  Latin-1 and Greek to their small letters, and writes a capital sigma (931) that has
  a letter before it and none after it as the final sigma (962), any other as the
  small sigma (963). This is what \<^verbatim>\<open>String.prototype.toLowerCase\<close> returns for the strings
  of the examples (the rule \<open>Final_Sigma\<close> of Unicode; none of them has a character the
  rule skips next to a sigma).
\<close>

definition example_letter :: "nat \<Rightarrow> bool" where
  "example_letter c =
     ((65 \<le> c \<and> c \<le> 90) \<or> (97 \<le> c \<and> c \<le> 122) \<or> (192 \<le> c \<and> c \<le> 255 \<and> c \<noteq> 215 \<and> c \<noteq> 247) \<or>
      (913 \<le> c \<and> c \<le> 939 \<and> c \<noteq> 930) \<or> (945 \<le> c \<and> c \<le> 971))"

definition lower_unit :: "nat \<Rightarrow> nat" where
  "lower_unit c =
     (if (65 \<le> c \<and> c \<le> 90) \<or> (192 \<le> c \<and> c \<le> 222 \<and> c \<noteq> 215) \<or>
         (913 \<le> c \<and> c \<le> 939 \<and> c \<noteq> 930)
      then c + 32 else c)"

fun lower_from :: "bool \<Rightarrow> nat list \<Rightarrow> nat list" where
  "lower_from after_letter [] = []"
| "lower_from after_letter (c # cs) =
     (if c = 931 then
        (if after_letter \<and> \<not> (case cs of [] \<Rightarrow> False | d # _ \<Rightarrow> example_letter d) then 962
         else 963)
      else lower_unit c) # lower_from (example_letter c) cs"

definition example_toLowerCase :: "nat list \<Rightarrow> nat list" where
  "example_toLowerCase s = lower_from False s"

text \<open>
  A document with one image, whose name is the Greek capitals omicron, delta, omicron
  and sigma followed by \<^verbatim>\<open> 1.jpg\<close>. The query of the example is the capital sigma alone,
  the code unit 931.
\<close>

definition greek_file :: media_file where
  "greek_file =
     \<lparr>file_id = ''greek'', type = ''image'',
      fileName = [927, 916, 927, 931, 32, 49, 46, 106, 112, 103],
      relativePath = [927, 916, 927, 931, 32, 49, 46, 106, 112, 103],
      metadata = \<lparr>creationDate = DateNull, duration = Null, fileSize = 0\<rparr>,
      thumbnails = \<lparr>main = None, frames = []\<rparr>, googleDrive = None\<rparr>"

definition greek_document :: index_document where
  "greek_document = \<lparr>doc_metadata = None, files = [greek_file]\<rparr>"

definition example_video :: media_file where
  "example_video =
     \<lparr>file_id = ''v1'', type = ''video'', fileName = code_units ''b.mp4'',
      relativePath = code_units ''clips/b.mp4'',
      metadata = \<lparr>creationDate = DateNull, duration = Num 20, fileSize = 1536\<rparr>,
      thumbnails = \<lparr>main = Some ''thumbs/b_0.jpg'',
                    frames = [''thumbs/b_0.jpg'', ''thumbs/b_1.jpg'', ''thumbs/b_2.jpg'']\<rparr>,
      googleDrive = Some \<lparr>url = Some '' https://drive.example/b ''\<rparr>\<rparr>"


section \<open>The invariant of the card\<close>

text \<open>
  Whether the pointer is over the card after a sequence of events: the last mouse
  event was an enter.
\<close>

fun hovered_from :: "bool \<Rightarrow> event list \<Rightarrow> bool" where
  "hovered_from h [] = h"
| "hovered_from h (MouseEnter # es) = hovered_from True es"
| "hovered_from h (MouseLeave # es) = hovered_from False es"
| "hovered_from h (e # es) = hovered_from h es"

definition hovered :: "event list \<Rightarrow> bool" where
  "hovered events = hovered_from False events"

text \<open>
  What holds of a card after any sequence of events: the frame index is inside the
  frames of a video that has some, and 0 for any other file, for which no interval
  runs; the only interval that can run is the one the ref holds. Once the effect has
  run, exactly that interval runs if a video with frames is hovered, and otherwise
  none runs and the index is 0. While the effect of an enter is pending, no interval
  runs and the index is 0.
\<close>

definition card_inv :: "media_file \<Rightarrow> card_state \<Rightarrow> bool" where
  "card_inv file s =
     ((if cycles file then currentFrame s < length (frames (thumbnails file))
       else currentFrame s = 0 \<and> running s = {}) \<and>
      running s \<subseteq> set_option (intervalRef s) \<and>
      (effect_pending s \<or>
         (if isHovering s \<and> cycles file then (\<exists>t. intervalRef s = Some t \<and> running s = {t})
          else running s = {} \<and> currentFrame s = 0)) \<and>
      (\<not> (effect_pending s \<and> isHovering s) \<or> (running s = {} \<and> currentFrame s = 0)))"

section \<open>Lemmas: objects, grouping and sorting\<close>

lemma obj_set_map_of: "map_of (obj_set kvs k v) = (map_of kvs)(k \<mapsto> v)"
  by (induction kvs) auto

lemma obj_set_keys:
  "map fst (obj_set kvs k v) = (if k \<in> fst ` set kvs then map fst kvs else map fst kvs @ [k])"
  by (induction kvs) (force split: if_splits)+

lemma obj_set_keys_set: "fst ` set (obj_set kvs k v) = insert k (fst ` set kvs)"
proof -
  have "set (map fst (obj_set kvs k v)) = insert k (set (map fst kvs))"
    by (simp add: obj_set_keys insert_absorb)
  then show ?thesis by simp
qed

lemma obj_set_fresh: "k \<notin> fst ` set kvs \<Longrightarrow> obj_set kvs k v = kvs @ [(k, v)]"
  by (induction kvs) auto

lemma obj_set_distinct: "distinct (map fst kvs) \<Longrightarrow> distinct (map fst (obj_set kvs k v))"
  by (simp add: obj_set_keys)

lemma group_step_keys:
  "map fst (group_step P acc f) =
     (if dateKey P f \<in> fst ` set acc then map fst acc else map fst acc @ [dateKey P f])"
proof (cases "map_of acc (dateKey P f)")
  case None
  then have "dateKey P f \<notin> fst ` set acc" by (simp add: map_of_eq_None_iff)
  with None show ?thesis
    by (simp add: group_step_def Let_def obj_set_map_of obj_set_keys obj_set_keys_set)
next
  case (Some fs)
  then have "dateKey P f \<in> fst ` set acc" by (metis map_of_eq_None_iff option.distinct(1))
  with Some show ?thesis
    by (simp add: group_step_def Let_def obj_set_map_of obj_set_keys)
qed

lemma group_step_map_of:
  "map_of (group_step P acc f) =
     (map_of acc)(dateKey P f \<mapsto> (case map_of acc (dateKey P f) of None \<Rightarrow> [f] | Some fs \<Rightarrow> fs @ [f]))"
  by (auto simp: group_step_def Let_def obj_set_map_of split: option.splits)

lemma grouped_snoc: "grouped P (fs @ [f]) = group_step P (grouped P fs) f"
  by (simp add: grouped_def)

lemma grouped_keys_set: "fst ` set (grouped P fs) = dateKey P ` set fs"
proof (induction fs rule: rev_induct)
  case Nil
  show ?case by (simp add: grouped_def)
next
  case (snoc f fs)
  have "set (map fst (grouped P (fs @ [f]))) = insert (dateKey P f) (set (map fst (grouped P fs)))"
    unfolding grouped_snoc group_step_keys by auto
  with snoc show ?case by auto
qed

lemma grouped_distinct: "distinct (map fst (grouped P fs))"
proof (induction fs rule: rev_induct)
  case Nil
  show ?case by (simp add: grouped_def)
next
  case (snoc f fs)
  then show ?case unfolding grouped_snoc group_step_keys by auto
qed

lemma grouped_lookup:
  "map_of (grouped P fs) k =
     (if k \<in> dateKey P ` set fs then Some (filter (\<lambda>f. dateKey P f = k) fs) else None)"
proof (induction fs rule: rev_induct)
  case Nil
  show ?case by (simp add: grouped_def)
next
  case (snoc f fs)
  show ?case
  proof (cases "k = dateKey P f")
    case True
    then show ?thesis
      unfolding grouped_snoc group_step_map_of using snoc
      by (force simp: filter_empty_conv image_iff split: option.splits if_splits)
  next
    case False
    then show ?thesis
      unfolding grouped_snoc group_step_map_of using snoc by auto
  qed
qed

lemma sort_insert_set: "set (sort_insert cmp x ys) = insert x (set ys)"
  by (induction ys) auto

lemma sort_insert_distinct: "x \<notin> set ys \<Longrightarrow> distinct ys \<Longrightarrow> distinct (sort_insert cmp x ys)"
  by (induction ys) (auto simp: sort_insert_set)

lemma Array_sort_set: "set (Array_sort cmp xs) = set xs"
  by (induction xs) (auto simp: Array_sort_def sort_insert_set)

lemma Array_sort_distinct: "distinct xs \<Longrightarrow> distinct (Array_sort cmp xs)"
proof (induction xs)
  case Nil
  show ?case by (simp add: Array_sort_def)
next
  case (Cons x xs)
  have "Array_sort cmp (x # xs) = sort_insert cmp x (Array_sort cmp xs)"
    by (simp add: Array_sort_def)
  with Cons show ?case by (simp add: sort_insert_distinct Array_sort_set)
qed

lemma compareKeys_le: "a \<noteq> b \<Longrightarrow> compareKeys a b \<le> 0 \<longleftrightarrow> date_desc a b"
  by (cases a; cases b) auto

lemma compareKeys_gt: "a \<noteq> b \<Longrightarrow> \<not> compareKeys a b \<le> 0 \<Longrightarrow> date_desc b a"
  by (cases a; cases b) auto

lemma date_desc_trans: "date_desc a b \<Longrightarrow> date_desc b c \<Longrightarrow> date_desc a c"
  by (cases a; cases b; cases c) auto

lemma sort_insert_sorted:
  "x \<notin> set ys \<Longrightarrow> sorted_wrt date_desc ys \<Longrightarrow> sorted_wrt date_desc (sort_insert compareKeys x ys)"
proof (induction ys)
  case Nil
  show ?case by simp
next
  case (Cons y ys)
  show ?case
  proof (cases "compareKeys x y \<le> 0")
    case True
    with Cons.prems have xy: "date_desc x y" by (simp add: compareKeys_le)
    have "\<forall>z\<in>set ys. date_desc x z"
      using Cons.prems xy by (auto intro: date_desc_trans)
    with True xy Cons.prems show ?thesis by simp
  next
    case False
    with Cons.prems have yx: "date_desc y x" by (simp add: compareKeys_gt)
    with False Cons show ?thesis by (auto simp: sort_insert_set)
  qed
qed

lemma Array_sort_sorted: "distinct ks \<Longrightarrow> sorted_wrt date_desc (Array_sort compareKeys ks)"
proof (induction ks)
  case Nil
  show ?case by (simp add: Array_sort_def)
next
  case (Cons k ks)
  have "Array_sort compareKeys (k # ks) = sort_insert compareKeys k (Array_sort compareKeys ks)"
    by (simp add: Array_sort_def)
  with Cons show ?case by (simp add: sort_insert_sorted Array_sort_set)
qed

lemma date_desc_asym: "date_desc a b \<Longrightarrow> \<not> date_desc b a"
  by (cases a; cases b) auto

lemma date_desc_unique:
  "sorted_wrt date_desc xs \<Longrightarrow> sorted_wrt date_desc ys \<Longrightarrow> set xs = set ys \<Longrightarrow> xs = ys"
proof (induction xs arbitrary: ys)
  case Nil
  then show ?case by simp
next
  case (Cons x xs)
  then obtain y ys' where ys: "ys = y # ys'" by (cases ys) auto
  have xy: "x = y"
  proof (rule ccontr)
    assume ne: "x \<noteq> y"
    with Cons.prems(3) ys have "x \<in> set ys'" "y \<in> set xs" by auto
    with Cons.prems(1,2) ys have "date_desc y x" "date_desc x y" by auto
    then show False using date_desc_asym by blast
  qed
  have irr: "\<And>a. \<not> date_desc a a" using date_desc_asym by blast
  have "x \<notin> set xs" "y \<notin> set ys'" using Cons.prems(1,2) ys irr by auto
  with Cons.prems(3) ys xy have "set xs = set ys'" by auto
  with Cons.IH[of ys'] Cons.prems(1,2) ys xy show ?case by simp
qed

lemma Array_sort_any_algorithm:
  assumes "distinct ks" "distinct ys" "set ys = set ks"
    and "sorted_wrt (\<lambda>a b. \<not> compareKeys b a < 0) ys"
  shows "ys = Array_sort compareKeys ks"
proof -
  have "sorted_wrt (\<lambda>a b. a \<noteq> b \<and> \<not> compareKeys b a < 0) ys"
    using assms(2,4) by (induction ys) auto
  moreover have "\<And>a b. a \<noteq> b \<and> \<not> compareKeys b a < 0 \<Longrightarrow> date_desc a b"
  proof -
    fix a b :: date_key
    assume "a \<noteq> b \<and> \<not> compareKeys b a < 0"
    then show "date_desc a b" by (cases a; cases b) auto
  qed
  ultimately have "sorted_wrt date_desc ys" by (rule sorted_wrt_mono_rel[rotated]) blast
  moreover have "sorted_wrt date_desc (Array_sort compareKeys ks)"
    using assms(1) by (rule Array_sort_sorted)
  moreover have "set ys = set (Array_sort compareKeys ks)"
    using assms(3) by (simp add: Array_sort_set)
  ultimately show ?thesis by (rule date_desc_unique)
qed

lemma copy_groups:
  "distinct ks \<Longrightarrow> set ks \<inter> fst ` set acc = {} \<Longrightarrow> (\<And>k. k \<in> set ks \<Longrightarrow> map_of g k = Some (h k)) \<Longrightarrow>
   foldl (\<lambda>acc key. case map_of g key of Some fs \<Rightarrow> obj_set acc key fs | None \<Rightarrow> acc) acc ks
     = acc @ map (\<lambda>k. (k, h k)) ks"
proof (induction ks arbitrary: acc)
  case Nil
  show ?case by simp
next
  case (Cons k ks)
  have k: "map_of g k = Some (h k)" using Cons.prems(3) by simp
  have fresh: "k \<notin> fst ` set acc" using Cons.prems(2) by auto
  have step: "obj_set acc k (h k) = acc @ [(k, h k)]" using fresh by (rule obj_set_fresh)
  have "set ks \<inter> fst ` set (acc @ [(k, h k)]) = {}" using Cons.prems(1,2) by auto
  with Cons.IH[of "acc @ [(k, h k)]"] Cons.prems k step show ?case by simp
qed

lemma groupedByDate_eq:
  "groupedByDate P L (Some doc) ft q =
     map (\<lambda>k. (k, filter (\<lambda>f. dateKey P f = k) (filtered L doc ft q)))
       (Array_sort compareKeys (map fst (grouped P (filtered L doc ft q))))"
proof -
  let ?fl = "filtered L doc ft q"
  let ?g = "grouped P ?fl"
  let ?ks = "Array_sort compareKeys (map fst ?g)"
  have d: "distinct ?ks" by (simp add: Array_sort_distinct grouped_distinct)
  have l: "\<And>k. k \<in> set ?ks \<Longrightarrow> map_of ?g k = Some (filter (\<lambda>f. dateKey P f = k) ?fl)"
    using grouped_keys_set[of P ?fl] by (simp add: Array_sort_set grouped_lookup)
  show ?thesis
    unfolding groupedByDate_def Let_def option.case
    using copy_groups[OF d _ l, of "[]"] by simp
qed

lemma partition_mset:
  "distinct ks \<Longrightarrow> mset (concat (map (\<lambda>k. filter (\<lambda>f. g f = k) fs) ks)) = mset (filter (\<lambda>f. g f \<in> set ks) fs)"
proof (induction ks)
  case Nil
  show ?case by simp
next
  case (Cons k ks)
  have "mset (filter (\<lambda>f. g f = k) fs) + mset (filter (\<lambda>f. g f \<in> set ks) fs)
        = mset (filter (\<lambda>f. g f \<in> set (k # ks)) fs)"
    using Cons.prems by (induction fs) auto
  with Cons show ?case by simp
qed

lemma displayed_mset:
  "mset (displayed (groupedByDate P L (Some doc) ft q)) = mset (filtered L doc ft q)"
proof -
  let ?fl = "filtered L doc ft q"
  let ?ks = "Array_sort compareKeys (map fst (grouped P ?fl))"
  have d: "distinct ?ks" by (simp add: Array_sort_distinct grouped_distinct)
  have s: "set ?ks = dateKey P ` set ?fl" using grouped_keys_set[of P ?fl] by (simp add: Array_sort_set)
  have "mset (displayed (groupedByDate P L (Some doc) ft q)) = mset (filter (\<lambda>f. dateKey P f \<in> set ?ks) ?fl)"
    unfolding groupedByDate_eq displayed_def using partition_mset[OF d, of "dateKey P" ?fl]
    by (simp add: comp_def)
  also have "\<dots> = mset ?fl" unfolding s by (simp add: filter_id_conv)
  finally show ?thesis .
qed

lemma displayed_set: "set (displayed (groupedByDate P L (Some doc) ft q)) = set (filtered L doc ft q)"
proof -
  have "set_mset (mset (displayed (groupedByDate P L (Some doc) ft q))) = set_mset (mset (filtered L doc ft q))"
    by (simp only: displayed_mset)
  then show ?thesis by simp
qed

lemma displayed_length: "length (displayed (groupedByDate P L (Some doc) ft q)) = length (filtered L doc ft q)"
proof -
  have "size (mset (displayed (groupedByDate P L (Some doc) ft q))) = size (mset (filtered L doc ft q))"
    by (simp only: displayed_mset)
  then show ?thesis by simp
qed




lemma filtered_set:
  "set (filtered L doc ft q) =
     {file \<in> set (files doc). (ft = ''all'' \<or> type file = ft) \<and>
        (q = [] \<or> String_includes (L (fileName file)) (L q) \<or>
         String_includes (L (relativePath file)) (L q))}"
proof -
  have t: "\<And>fs. set (filterByType ft fs) = {file \<in> set fs. ft = ''all'' \<or> type file = ft}"
    by (simp add: filterByType_def)
  have q: "\<And>fs. set (filterBySearch L q fs) =
      {file \<in> set fs. q = [] \<or> String_includes (L (fileName file)) (L q) \<or>
         String_includes (L (relativePath file)) (L q)}"
    by (simp add: filterBySearch_def Let_def)
  show ?thesis unfolding filtered_def q t by blast
qed

lemma totalFiles_sum: "foldl (\<lambda>sum fs. sum + length fs) n xs = n + sum_list (map length xs)"
  by (induction xs arbitrary: n) auto

lemmas example_simps = groupedByDate_def grouped_def group_step_def dateKey_def filtered_def
  filterByType_def filterBySearch_def Array_sort_def Let_def example_document_def example_file_def
  example_parse_def example_toLowerCase_def example_letter_def lower_unit_def code_units_def
  undated_document_def greek_document_def greek_file_def displayed_def

section \<open>Grouping by date\<close>

text \<open>
  What \<^verbatim>\<open>groupedByDate\<close> computes for a loaded document: one group for each key of the
  filtered files, and no other; a group holds exactly the filtered files of its key,
  in their order. The key of a file is the UTC calendar day of the time value
  \<^verbatim>\<open>new Date\<close> gives its \<^verbatim>\<open>metadata.creationDate\<close>, or \<^verbatim>\<open>'unknown-date'\<close> when \<^verbatim>\<open>new Date\<close>
  gives an invalid date. The groups are in the order of their days, latest first, and
  the group \<^verbatim>\<open>'unknown-date'\<close>, when there is one, is the last.
\<close>

lemma groupedByDate_groups:
  "(let shown = filtered toLowerCase doc filterType searchQuery;
        groups = groupedByDate parse toLowerCase (Some doc) filterType searchQuery
    in distinct (map fst groups) \<and>
       fst ` set groups = dateKey parse ` set shown \<and>
       (\<forall>(k, fs) \<in> set groups. fs \<noteq> [] \<and> fs = filter (\<lambda>file. dateKey parse file = k) shown) \<and>
       sorted_wrt date_desc (map fst groups) \<and>
       (\<forall>i < length groups. fst (groups ! i) = Unknown_date \<longrightarrow> i = length groups - 1))"
proof -
  let ?fl = "filtered toLowerCase doc filterType searchQuery"
  let ?ks = "Array_sort compareKeys (map fst (grouped parse ?fl))"
  let ?gs = "groupedByDate parse toLowerCase (Some doc) filterType searchQuery"
  have eq: "?gs = map (\<lambda>k. (k, filter (\<lambda>f. dateKey parse f = k) ?fl)) ?ks"
    by (rule groupedByDate_eq)
  have keys: "map fst ?gs = ?ks" unfolding eq by (simp add: comp_def)
  have d: "distinct ?ks" by (simp add: Array_sort_distinct grouped_distinct)
  have s: "set ?ks = dateKey parse ` set ?fl"
    using grouped_keys_set[of parse ?fl] by (simp add: Array_sort_set)
  have sorted: "sorted_wrt date_desc ?ks" by (simp add: Array_sort_sorted grouped_distinct)
  have c1: "distinct (map fst ?gs)" using d keys by simp
  have c2: "fst ` set ?gs = dateKey parse ` set ?fl" using s keys by (metis list.set_map)
  have c3: "\<forall>(k, fs) \<in> set ?gs. fs \<noteq> [] \<and> fs = filter (\<lambda>file. dateKey parse file = k) ?fl"
  proof (clarify, intro conjI)
    fix k fs assume "(k, fs) \<in> set ?gs"
    then have k: "k \<in> set ?ks" and fs: "fs = filter (\<lambda>f. dateKey parse f = k) ?fl"
      unfolding eq by auto
    from k s obtain f where "f \<in> set ?fl" "dateKey parse f = k" by auto
    then show "fs \<noteq> []" unfolding fs by (auto simp: filter_empty_conv)
    show "fs = filter (\<lambda>file. dateKey parse file = k) ?fl" by (rule fs)
  qed
  have c4: "sorted_wrt date_desc (map fst ?gs)" using sorted keys by simp
  have c5: "\<forall>i < length ?gs. fst (?gs ! i) = Unknown_date \<longrightarrow> i = length ?gs - 1"
  proof (intro allI impI)
    fix i assume i: "i < length ?gs" and u: "fst (?gs ! i) = Unknown_date"
    show "i = length ?gs - 1"
    proof (rule ccontr)
      assume "i \<noteq> length ?gs - 1"
      with i have lt: "i < length ?gs - 1" "length ?gs - 1 < length ?gs" by auto
      have "date_desc (map fst ?gs ! i) (map fst ?gs ! (length ?gs - 1))"
        using c4 lt by (simp add: sorted_wrt_iff_nth_less)
      with u i show False by simp
    qed
  qed
  show ?thesis unfolding Let_def using c1 c2 c3 c4 c5 by blast
qed

lemma groupedByDate_groups_example:
  "map (\<lambda>(k, fs). (k, map file_id fs))
       (groupedByDate example_parse example_toLowerCase (Some example_document) ''all'' []) =
     [(Day 19675, [''C.mp3'']), (Day 19478, [''a.jpg'']), (Day 0, [''d.png'']),
      (Unknown_date, [''b.mp4''])]"
  by (simp add: example_simps)

text \<open>
  Claim C1. The files whose \<^verbatim>\<open>creationDate\<close> is not a valid date are to be in the group
  \<^verbatim>\<open>'unknown-date'\<close>, the last one. A \<^verbatim>\<open>creationDate\<close> that is \<^verbatim>\<open>null\<close> is not: \<^verbatim>\<open>new Date(null)\<close>
  is the epoch, so the file is in the group of 1 January 1970, there is no group
  \<^verbatim>\<open>'unknown-date'\<close>, and the file comes before a file of 31 December 1969.
\<close>

theorem null_creationDate_grouped_under_epoch:
  "map (\<lambda>(k, fs). (k, map file_id fs))
       (groupedByDate example_parse example_toLowerCase (Some undated_document) ''all'' []) =
     [(Day 0, [''nodate.jpg'']), (Day (- 1), [''old.jpg''])] \<and>
   map (\<lambda>file. (file_id file, creationDate (metadata file))) (files undated_document) =
     [(''nodate.jpg'', DateNull), (''old.jpg'', DateString ''1969-12-31T12:00:00Z'')]"
  by (simp add: example_simps)

section \<open>Filtering\<close>

text \<open>
  Claim C2. With a type filter \<open>f\<close> among \<^verbatim>\<open>image\<close>, \<^verbatim>\<open>video\<close> and \<^verbatim>\<open>audio\<close>, the files
  the grid shows are exactly the files of the document whose \<^verbatim>\<open>type\<close> is \<open>f\<close>; with a
  search query as well, they are exactly those among the files the query alone would
  show. With the filter \<^verbatim>\<open>all\<close> every file of the document is shown.
\<close>

theorem type_filter_retains_files_of_type:
  "(filterType \<in> {''image'', ''video'', ''audio''} \<longrightarrow>
      set (displayed (groupedByDate parse toLowerCase (Some doc) filterType [])) =
        {file \<in> set (files doc). type file = filterType} \<and>
      set (displayed (groupedByDate parse toLowerCase (Some doc) filterType searchQuery)) =
        {file \<in> set (displayed (groupedByDate parse toLowerCase (Some doc) ''all'' searchQuery)).
           type file = filterType}) \<and>
   set (displayed (groupedByDate parse toLowerCase (Some doc) ''all'' [])) = set (files doc)"
  unfolding displayed_set filtered_set by auto

theorem type_filter_retains_files_of_type_witness:
  "''image'' \<in> {''image'', ''video'', ''audio''} \<and>
   set (displayed (groupedByDate example_parse example_toLowerCase (Some example_document) ''image'' [])) =
     {file \<in> set (files example_document). type file = ''image''} \<and>
   map file_id (displayed (groupedByDate example_parse example_toLowerCase (Some example_document) ''image'' [])) =
     [''a.jpg'', ''d.png'']"
proof -
  have h: "''image'' \<in> {''image'', ''video'', ''audio''}" by simp
  have a: "set (displayed (groupedByDate example_parse example_toLowerCase (Some example_document) ''image'' [])) =
     {file \<in> set (files example_document). type file = ''image''}"
    using h type_filter_retains_files_of_type
      [where filterType = "''image''" and parse = example_parse
         and toLowerCase = example_toLowerCase and doc = example_document]
    by blast
  have b: "map file_id
      (displayed (groupedByDate example_parse example_toLowerCase (Some example_document) ''image'' [])) =
     [''a.jpg'', ''d.png'']"
    by (simp add: example_simps)
  from h a b show ?thesis by blast
qed




section \<open>The header\<close>

text \<open>
  Claim C10. A document with no \<^verbatim>\<open>metadata\<close> field, or with no \<^verbatim>\<open>stats\<close> in it, has the
  header statistics zero for images, videos and audio; and the number of files in the
  header is the sum of the sizes of the groups shown, which is the number of cards.
\<close>

theorem stats_fallback_and_total:
  "((doc_metadata doc = None \<or> (\<exists>m. doc_metadata doc = Some m \<and> stats m = None)) \<longrightarrow>
      header_stats doc = \<lparr>images = 0, videos = 0, audio = 0\<rparr>) \<and>
   totalFiles (groupedByDate parse toLowerCase (Some doc) filterType searchQuery) =
     sum_list (map (\<lambda>(k, fs). length fs) (groupedByDate parse toLowerCase (Some doc) filterType searchQuery)) \<and>
   totalFiles (groupedByDate parse toLowerCase (Some doc) filterType searchQuery) =
     length (displayed (groupedByDate parse toLowerCase (Some doc) filterType searchQuery))"
proof -
  let ?G = "groupedByDate parse toLowerCase (Some doc) filterType searchQuery"
  have a: "(doc_metadata doc = None \<or> (\<exists>m. doc_metadata doc = Some m \<and> stats m = None)) \<longrightarrow>
      header_stats doc = \<lparr>images = 0, videos = 0, audio = 0\<rparr>"
    by (auto simp: header_stats_def)
  have b: "totalFiles ?G = sum_list (map (\<lambda>(k, fs). length fs) ?G)"
    by (simp add: totalFiles_def totalFiles_sum comp_def case_prod_unfold)
  have c: "totalFiles ?G = length (displayed ?G)"
    by (simp add: totalFiles_def totalFiles_sum displayed_def length_concat comp_def)
  show ?thesis using a b c by blast
qed

theorem stats_fallback_and_total_witness:
  "doc_metadata example_document = None \<and>
   header_stats example_document = \<lparr>images = 0, videos = 0, audio = 0\<rparr> \<and>
   totalFiles (groupedByDate example_parse example_toLowerCase (Some example_document) ''all'' []) = 4"
proof -
  note t = stats_fallback_and_total
    [where doc = example_document and parse = example_parse
       and toLowerCase = example_toLowerCase and filterType = "''all''"
       and searchQuery = "[]"]
  have h: "doc_metadata example_document = None" by (simp add: example_document_def)
  have a: "header_stats example_document = \<lparr>images = 0, videos = 0, audio = 0\<rparr>"
    using h t by blast
  have "length (displayed (groupedByDate example_parse example_toLowerCase (Some example_document) ''all'' [])) = 4"
    by (simp add: example_simps)
  with t have b: "totalFiles (groupedByDate example_parse example_toLowerCase (Some example_document) ''all'' []) = 4"
    by simp
  from h a b show ?thesis by blast
qed

section \<open>Loading the document\<close>

lemma digit_char_inj: "a < 10 \<Longrightarrow> b < 10 \<Longrightarrow> digit_char a = digit_char b \<Longrightarrow> a = b"
  by (simp add: digit_char_def char_of_eq_iff take_bit_eq_mod)

lemma digit_char_not_minus: "d < 10 \<Longrightarrow> digit_char d \<noteq> CHR ''-''"
  by (simp add: digit_char_def char_of_eq_iff take_bit_eq_mod)

lemma string_of_nat_small: "n < 10 \<Longrightarrow> string_of_nat n = [digit_char n]"
  by (subst string_of_nat.simps) simp

lemma string_of_nat_big:
  "10 \<le> n \<Longrightarrow> string_of_nat n = string_of_nat (n div 10) @ [digit_char (n mod 10)]"
  by (subst string_of_nat.simps) simp

lemma string_of_nat_not_Nil: "string_of_nat n \<noteq> []"
  by (subst string_of_nat.simps) simp

lemma string_of_nat_length: "10 \<le> n \<Longrightarrow> 2 \<le> length (string_of_nat n)"
proof -
  assume "10 \<le> n"
  moreover have "1 \<le> length (string_of_nat (n div 10))"
    using string_of_nat_not_Nil[of "n div 10"] by (cases "string_of_nat (n div 10)") auto
  ultimately show ?thesis by (simp add: string_of_nat_big)
qed

lemma string_of_nat_hd: "\<exists>d cs. d < 10 \<and> string_of_nat n = digit_char d # cs"
proof (induction n rule: string_of_nat.induct)
  case (1 n)
  show ?case
  proof (cases "n < 10")
    case True
    then show ?thesis by (auto simp: string_of_nat_small)
  next
    case False
    with 1 obtain d cs where "d < 10" "string_of_nat (n div 10) = digit_char d # cs" by auto
    with False show ?thesis by (auto simp: string_of_nat_big)
  qed
qed

lemma string_of_nat_inj: "string_of_nat n = string_of_nat m \<Longrightarrow> n = m"
proof (induction n arbitrary: m rule: string_of_nat.induct)
  case (1 n)
  show ?case
  proof (cases "n < 10")
    case True
    then have l: "length (string_of_nat m) = 1"
      using "1.prems" by (simp add: string_of_nat_small flip: "1.prems")
    have m: "m < 10" using l string_of_nat_length[of m] by (cases "m < 10") auto
    from True m "1.prems" show ?thesis
      by (simp add: string_of_nat_small digit_char_inj)
  next
    case False
    then have "2 \<le> length (string_of_nat m)"
      using string_of_nat_length[of n] "1.prems" by simp
    then have m: "\<not> m < 10" by (auto simp: string_of_nat_small)
    from False m "1.prems" have
      eq: "string_of_nat (n div 10) = string_of_nat (m div 10)" and
      d: "digit_char (n mod 10) = digit_char (m mod 10)"
      by (simp_all add: string_of_nat_big)
    from "1.IH"[OF False eq] have "n div 10 = m div 10" .
    moreover from d have "n mod 10 = m mod 10" by (simp add: digit_char_inj)
    ultimately show ?thesis by (metis div_mult_mod_eq)
  qed
qed

lemma String_of_int_inj: "String_of_int i = String_of_int j \<longleftrightarrow> i = j"
proof
  assume e: "String_of_int i = String_of_int j"
  obtain d cs where dn: "d < 10" "string_of_nat (nat i) = digit_char d # cs"
    using string_of_nat_hd by blast
  obtain d' cs' where dn': "d' < 10" "string_of_nat (nat j) = digit_char d' # cs'"
    using string_of_nat_hd by blast
  show "i = j"
  proof (cases "i < 0")
    case True
    show ?thesis
    proof (cases "j < 0")
      case True
      with \<open>i < 0\<close> e have "nat (- i) = nat (- j)"
        by (simp add: String_of_int_def string_of_nat_inj)
      with True \<open>i < 0\<close> show ?thesis by simp
    next
      case False
      with True e dn' digit_char_not_minus[OF dn'(1)] show ?thesis
        by (simp add: String_of_int_def)
    qed
  next
    case False
    show ?thesis
    proof (cases "j < 0")
      case True
      with False e dn digit_char_not_minus[OF dn(1)] show ?thesis
        by (simp add: String_of_int_def)
    next
      case False
      with \<open>\<not> i < 0\<close> e have "nat i = nat j"
        by (simp add: String_of_int_def string_of_nat_inj)
      with False \<open>\<not> i < 0\<close> show ?thesis by simp
    qed
  qed
qed simp

lemmas number_simps = String_of_int_def string_of_nat.simps two_digits_def digit_char_def
  char_of_def bit_0

text \<open>
  Claim C7. The URL the mount effect fetches is the document's path under the base URL
  followed by the query \<^verbatim>\<open>?t=\<close> and the clock reading in decimal, and two fetches with
  different clock readings have different URLs.
\<close>

theorem fetch_url_distinct:
  "(fetch_url base_url now1 = fetch_url base_url now2 \<longleftrightarrow> now1 = now2) \<and>
   fetch_url base_url now1 = base_url @ ''media_index.json'' @ ''?t='' @ String_of_int now1"
  by (simp add: fetch_url_def String_of_int_inj)

theorem fetch_url_distinct_witness:
  "fetch_url ''/app/'' 1700000000123 = ''/app/media_index.json?t=1700000000123'' \<and>
   fetch_url ''/app/'' 1700000000123 \<noteq> fetch_url ''/app/'' 1700000000124"
proof -
  note t = fetch_url_distinct[of "''/app/''" 1700000000123 1700000000124]
  from t have a: "fetch_url ''/app/'' 1700000000123 =
      ''/app/'' @ ''media_index.json'' @ ''?t='' @ String_of_int 1700000000123"
    by (rule conjunct2)
  have "String_of_int 1700000000123 = ''1700000000123''" by (simp add: number_simps)
  with a have b: "fetch_url ''/app/'' 1700000000123 = ''/app/media_index.json?t=1700000000123''"
    by simp
  from t have "(fetch_url ''/app/'' 1700000000123 = fetch_url ''/app/'' 1700000000124) =
      ((1700000000123::int) = 1700000000124)"
    by (rule conjunct1)
  then have c: "fetch_url ''/app/'' 1700000000123 \<noteq> fetch_url ''/app/'' 1700000000124"
    by simp
  from b c show ?thesis by (rule conjI)
qed

section \<open>Formatting durations and sizes\<close>


















section \<open>The click\<close>

lemma trim_nonempty_iff: "trim u \<noteq> [] \<longleftrightarrow> (\<exists>c \<in> set u. \<not> is_whitespace c)"
proof
  assume "trim u \<noteq> []"
  then obtain x where "x \<in> set (dropWhile is_whitespace u)" "\<not> is_whitespace x"
    by (auto simp: trim_def)
  then show "\<exists>c \<in> set u. \<not> is_whitespace c" using set_dropWhileD by fast
next
  assume "\<exists>c \<in> set u. \<not> is_whitespace c"
  then have ne: "dropWhile is_whitespace u \<noteq> []" by simp
  then have "\<not> is_whitespace (hd (dropWhile is_whitespace u))" by (rule hd_dropWhile)
  moreover have "hd (dropWhile is_whitespace u) \<in> set (dropWhile is_whitespace u)"
    using ne by simp
  ultimately have "\<exists>c \<in> set (rev (dropWhile is_whitespace u)). \<not> is_whitespace c" by auto
  then show "trim u \<noteq> []" by (simp add: trim_def)
qed

text \<open>
  Claim C6. A click opens the record's \<^verbatim>\<open>googleDrive.url\<close> in a new browsing context
  when the record has a \<^verbatim>\<open>googleDrive\<close> with a \<^verbatim>\<open>url\<close> that is not empty once trimmed,
  that is, a \<^verbatim>\<open>url\<close> with a character that is not white space; in every other case the
  click does nothing.
\<close>

theorem handleClick_opens_drive_url:
  "handleClick file =
     (case googleDrive file of
        None \<Rightarrow> None
      | Some g \<Rightarrow>
          (case url g of
             None \<Rightarrow> None
           | Some u \<Rightarrow>
               if trim u \<noteq> [] then Some (Window_open u ''_blank'' ''noopener,noreferrer'')
               else None)) \<and>
   (trim u \<noteq> [] \<longleftrightarrow> (\<exists>c \<in> set u. \<not> is_whitespace c))"
proof -
  have "trim [] = []" by (simp add: trim_def)
  then have "handleClick file =
     (case googleDrive file of
        None \<Rightarrow> None
      | Some g \<Rightarrow>
          (case url g of
             None \<Rightarrow> None
           | Some u \<Rightarrow>
               if trim u \<noteq> [] then Some (Window_open u ''_blank'' ''noopener,noreferrer'')
               else None))"
    by (auto simp: handleClick_def hasDriveUrl_def split: option.splits)
  then show ?thesis using trim_nonempty_iff[of u] by blast
qed

theorem handleClick_opens_drive_url_witness:
  "handleClick example_video =
     Some (Window_open '' https://drive.example/b '' ''_blank'' ''noopener,noreferrer'') \<and>
   handleClick (example_file ''image'' ''a.jpg'' DateNull) = None \<and>
   handleClick (example_video\<lparr>googleDrive := Some \<lparr>url = Some ''   ''\<rparr>\<rparr>) = None"
proof -
  have w: "trim '' https://drive.example/b '' \<noteq> []" "trim ''   '' = []"
    by (simp_all add: trim_def is_whitespace_def)
  have a: "handleClick example_video =
     Some (Window_open '' https://drive.example/b '' ''_blank'' ''noopener,noreferrer'')"
    using handleClick_opens_drive_url[of example_video] w(1) by (simp add: example_video_def)
  have b: "handleClick (example_file ''image'' ''a.jpg'' DateNull) = None"
    using handleClick_opens_drive_url[of "example_file ''image'' ''a.jpg'' DateNull"]
    by (simp add: example_file_def)
  have c: "handleClick (example_video\<lparr>googleDrive := Some \<lparr>url = Some ''   ''\<rparr>\<rparr>) = None"
    using handleClick_opens_drive_url[of "example_video\<lparr>googleDrive := Some \<lparr>url = Some ''   ''\<rparr>\<rparr>"]
      w(2)
    by simp
  from a b c show ?thesis by blast
qed

section \<open>The card: hovering and the thumbnail\<close>

lemma cleanup_fields:
  "currentFrame (cleanup s) = currentFrame s"
  "isHovering (cleanup s) = isHovering s"
  "intervalRef (cleanup s) = intervalRef s"
  "next_id (cleanup s) = next_id s"
  "effect_pending (cleanup s) = effect_pending s"
  by (simp_all add: cleanup_def split: option.splits)

lemma cleanup_running:
  "running s \<subseteq> set_option (intervalRef s) \<Longrightarrow> running (cleanup s) = {}"
  by (auto simp: cleanup_def split: option.splits)

lemma cleanup_running_empty: "running s = {} \<Longrightarrow> running (cleanup s) = {}"
  by (simp add: cleanup_def split: option.splits)

lemma effect_start:
  "isHovering s \<Longrightarrow> cycles file \<Longrightarrow>
     effect file s =
       s\<lparr>intervalRef := Some (next_id s), running := insert (next_id s) (running s),
         next_id := next_id s + 1\<rparr>"
  by (simp add: effect_def cycles_def)

lemma effect_reset:
  "\<not> (isHovering s \<and> cycles file) \<Longrightarrow> effect file s = (cleanup s)\<lparr>currentFrame := 0\<rparr>"
  by (auto simp: effect_def cycles_def)

lemma cycles_frames: "cycles file \<Longrightarrow> 0 < length (frames (thumbnails file))"
  by (simp add: cycles_def)

lemma flush_settled: "\<not> effect_pending (flush_effects file s)"
  by (simp add: flush_effects_def)

lemma flush_isHovering: "isHovering (flush_effects file s) = isHovering s"
  by (simp add: flush_effects_def effect_def cleanup_fields)

lemma card_inv_flush:
  assumes "card_inv file s"
  shows "card_inv file (flush_effects file s)"
proof (cases "effect_pending s")
  case False
  with assms show ?thesis by (simp add: flush_effects_def)
next
  case True
  have r: "running (cleanup s) = {}"
    using assms by (intro cleanup_running) (simp add: card_inv_def)
  have c: "if cycles file then currentFrame s < length (frames (thumbnails file))
           else currentFrame s = 0 \<and> running s = {}"
    using assms by (simp add: card_inv_def)
  show ?thesis
  proof (cases "isHovering s \<and> cycles file")
    case True
    then have h: "isHovering (cleanup s)" by (simp add: cleanup_fields)
    have "flush_effects file s =
        (cleanup s)\<lparr>intervalRef := Some (next_id (cleanup s)),
          running := insert (next_id (cleanup s)) (running (cleanup s)),
          next_id := next_id (cleanup s) + 1, effect_pending := False\<rparr>"
      using \<open>effect_pending s\<close> True h by (simp add: flush_effects_def effect_start)
    then show ?thesis using True r c by (simp add: card_inv_def cleanup_fields)
  next
    case False
    then have n: "\<not> (isHovering (cleanup s) \<and> cycles file)" by (simp add: cleanup_fields)
    have "running (cleanup (cleanup s)) = {}" using r by (rule cleanup_running_empty)
    then show ?thesis
      using \<open>effect_pending s\<close> False cycles_frames
      by (auto simp: flush_effects_def effect_reset[OF n] card_inv_def cleanup_fields)
  qed
qed

lemma card_inv_setIsHovering:
  assumes "card_inv file s"
  shows "card_inv file (setIsHovering file v s)"
proof (cases "isHovering s = v")
  case True
  with assms show ?thesis by (simp add: setIsHovering_def)
next
  case False
  let ?s1 = "flush_effects file s"
  have i: "card_inv file ?s1" using assms by (rule card_inv_flush)
  have p: "\<not> effect_pending ?s1" by (rule flush_settled)
  have h: "isHovering ?s1 = (\<not> v)" using False by (simp add: flush_isHovering)
  have eq: "setIsHovering file v s = ?s1\<lparr>isHovering := v, effect_pending := True\<rparr>"
    using False by (simp add: setIsHovering_def)
  show ?thesis
  proof (cases v)
    case True
    with h have "\<not> isHovering ?s1" by simp
    with i p have "running ?s1 = {}" "currentFrame ?s1 = 0" by (simp_all add: card_inv_def)
    with i show ?thesis unfolding eq by (simp add: card_inv_def cycles_def)
  next
    case False
    with i show ?thesis unfolding eq by (simp add: card_inv_def)
  qed
qed

lemma card_inv_interval_callback:
  assumes "card_inv file s"
  shows "card_inv file (interval_callback file t s)"
proof (cases "t \<in> running s")
  case False
  with assms show ?thesis by (simp add: interval_callback_def)
next
  case True
  let ?s1 = "s\<lparr>currentFrame := (currentFrame s + 1) mod length (frames (thumbnails file))\<rparr>"
  from True assms have c: "cycles file" by (auto simp: card_inv_def split: if_splits)
  then have l: "0 < length (frames (thumbnails file))" by (rule cycles_frames)
  have "card_inv file ?s1"
    using assms True c l by (auto simp: card_inv_def)
  then have "card_inv file (flush_effects file ?s1)" by (rule card_inv_flush)
  with True show ?thesis by (simp add: interval_callback_def)
qed

lemma card_inv_step: "card_inv file s \<Longrightarrow> card_inv file (step file s e)"
  by (cases e) (simp_all add: card_inv_setIsHovering card_inv_interval_callback card_inv_flush)

lemma card_inv_foldl: "card_inv file s \<Longrightarrow> card_inv file (foldl (step file) s es)"
  by (induction es arbitrary: s) (simp_all add: card_inv_step)

lemma card_inv_mount: "card_inv file (mount file)"
  by (simp add: card_inv_def mount_def cycles_def)

lemma card_inv_run: "card_inv file (run file events)"
  unfolding run_def by (rule card_inv_foldl) (rule card_inv_mount)

lemma run_append: "run file (es @ es') = foldl (step file) (run file es) es'"
  by (simp add: run_def)

lemma step_isHovering:
  "isHovering (step file s e) =
     (case e of MouseEnter \<Rightarrow> True | MouseLeave \<Rightarrow> False | _ \<Rightarrow> isHovering s)"
  by (cases e)
    (auto simp: setIsHovering_def interval_callback_def flush_isHovering)

lemma foldl_isHovering:
  "isHovering (foldl (step file) s es) = hovered_from (isHovering s) es"
proof (induction es arbitrary: s)
  case Nil
  show ?case by simp
next
  case (Cons e es)
  show ?case by (cases e) (simp_all add: Cons step_isHovering del: step.simps)
qed

lemma run_isHovering: "isHovering (run file events) = hovered events"
  by (simp add: run_def hovered_def foldl_isHovering mount_def)

lemma ticks_advance:
  assumes "currentFrame s < length (frames (thumbnails file))" "isHovering s"
    "\<not> effect_pending s" "running s = {t}"
  shows "currentFrame (foldl (step file) s (replicate j (Tick t))) =
           (currentFrame s + j) mod length (frames (thumbnails file)) \<and>
         isHovering (foldl (step file) s (replicate j (Tick t))) \<and>
         \<not> effect_pending (foldl (step file) s (replicate j (Tick t))) \<and>
         running (foldl (step file) s (replicate j (Tick t))) = {t}"
proof (induction j)
  case 0
  with assms show ?case by simp
next
  case (Suc j)
  let ?s = "foldl (step file) s (replicate j (Tick t))"
  have "replicate (Suc j) (Tick t) = replicate j (Tick t) @ [Tick t]"
    by (simp add: replicate_append_same)
  then have "foldl (step file) s (replicate (Suc j) (Tick t)) = interval_callback file t ?s"
    by simp
  with Suc show ?case
    by (simp add: interval_callback_def flush_effects_def mod_Suc_eq)
qed

lemma run_snoc: "run file (events @ [e]) = step file (run file events) e"
  by (simp add: run_def)

lemma enter_pending:
  "\<not> isHovering s \<Longrightarrow> effect_pending (step file s MouseEnter) \<and> isHovering (step file s MouseEnter)"
  by (simp add: setIsHovering_def)

lemma array_get_nat: "i < length xs \<Longrightarrow> array_get xs (int i) = Some (xs ! i)"
  by (simp add: array_get_def)

lemmas card_simps = run_def mount_def effect_def cleanup_def setIsHovering_def
  interval_callback_def flush_effects_def hovered_def example_video_def

text \<open>
  Claim C5, as stated, fails: the pointer enters a video, the interval ticks once
  and the pointer leaves. The render React commits for the mouse leave is not hovered
  and still has frame index 1; the effect that resets it has not run yet.
\<close>

theorem not_hovered_frame_not_reset:
  "type example_video = ''video'' \<and> frames (thumbnails example_video) \<noteq> [] \<and>
   \<not> hovered [Effects, MouseEnter, Effects, Tick 1, MouseLeave] \<and>
   \<not> isHovering (run example_video [Effects, MouseEnter, Effects, Tick 1, MouseLeave]) \<and>
   currentFrame (run example_video [Effects, MouseEnter, Effects, Tick 1, MouseLeave]) = 1"
  by (simp add: card_simps)

text \<open>
  Claim C5, amended. For a video with frames, after any sequence of events
  \<^verbatim>\<open>isHovering\<close> says whether the last mouse event was an enter, and the frame index is
  below the number of frames. Once the effect of the committed render has run: if the
  card is not hovered the index is 0 and no interval runs, and if it is hovered
  exactly one interval runs, and \<open>j\<close> of its ticks move the index \<open>j\<close> places on,
  wrapping at the number of frames. The effect pending after a mouse leave resets the
  index to 0 when it runs, and entering the card starts the cycle at 0.
\<close>

theorem hover_cycles_through_frames:
  "type file = ''video'' \<and> frames (thumbnails file) \<noteq> [] \<longrightarrow>
     (let s = run file events; n = length (frames (thumbnails file))
      in isHovering s = hovered events \<and>
         currentFrame s < n \<and>
         (hovered events \<or> effect_pending s \<or> (currentFrame s = 0 \<and> running s = {})) \<and>
         (hovered events \<and> \<not> effect_pending s \<longrightarrow>
            (\<exists>t. running s = {t} \<and>
               (\<forall>j. currentFrame (run file (events @ replicate j (Tick t))) =
                      (currentFrame s + j) mod n))) \<and>
         \<not> effect_pending (run file (events @ [Effects])) \<and>
         (\<not> hovered events \<longrightarrow>
            currentFrame (run file (events @ [Effects])) = 0 \<and>
            currentFrame (run file (events @ [MouseEnter])) = 0 \<and>
            currentFrame (run file (events @ [MouseEnter, Effects])) = 0))"
proof (intro impI)
  assume a: "type file = ''video'' \<and> frames (thumbnails file) \<noteq> []"
  then have c: "cycles file" by (simp add: cycles_def)
  let ?s = "run file events"
  let ?n = "length (frames (thumbnails file))"
  have inv: "card_inv file ?s" by (rule card_inv_run)
  have hov: "isHovering ?s = hovered events" by (rule run_isHovering)
  have 1: "currentFrame ?s < ?n" using inv c by (simp add: card_inv_def)
  have 2: "hovered events \<or> effect_pending ?s \<or> (currentFrame ?s = 0 \<and> running ?s = {})"
    using inv hov by (auto simp: card_inv_def split: if_splits)
  have 3: "hovered events \<and> \<not> effect_pending ?s \<longrightarrow>
            (\<exists>t. running ?s = {t} \<and>
               (\<forall>j. currentFrame (run file (events @ replicate j (Tick t))) =
                      (currentFrame ?s + j) mod ?n))"
  proof
    assume h: "hovered events \<and> \<not> effect_pending ?s"
    with hov have ih: "isHovering ?s" by simp
    with inv c h obtain t where t: "running ?s = {t}" by (auto simp: card_inv_def)
    have "\<forall>j. currentFrame (run file (events @ replicate j (Tick t))) =
                      (currentFrame ?s + j) mod ?n"
      using ticks_advance[OF 1 ih _ t] h by (simp add: run_append)
    with t show "\<exists>t. running ?s = {t} \<and>
               (\<forall>j. currentFrame (run file (events @ replicate j (Tick t))) =
                      (currentFrame ?s + j) mod ?n)" by blast
  qed
  have 4: "\<not> effect_pending (run file (events @ [Effects]))"
    by (simp add: run_snoc flush_settled)
  have 5: "\<not> hovered events \<longrightarrow>
            currentFrame (run file (events @ [Effects])) = 0 \<and>
            currentFrame (run file (events @ [MouseEnter])) = 0 \<and>
            currentFrame (run file (events @ [MouseEnter, Effects])) = 0"
  proof
    assume nh: "\<not> hovered events"
    with hov have ns: "\<not> isHovering ?s" by simp
    let ?f = "run file (events @ [Effects])"
    have "card_inv file ?f" by (rule card_inv_run)
    moreover have "\<not> isHovering ?f" using ns by (simp add: run_snoc flush_isHovering)
    ultimately have x: "currentFrame ?f = 0" using 4 by (simp add: card_inv_def)
    let ?e = "run file (events @ [MouseEnter])"
    have e: "effect_pending ?e \<and> isHovering ?e"
      unfolding run_snoc using ns by (rule enter_pending)
    have ie: "card_inv file ?e" by (rule card_inv_run)
    with e have y: "currentFrame ?e = 0" by (simp add: card_inv_def)
    have "run file (events @ [MouseEnter, Effects]) = flush_effects file ?e"
      by (simp add: run_def)
    also have "\<dots> = (effect file (cleanup ?e))\<lparr>effect_pending := False\<rparr>"
      using e by (simp add: flush_effects_def)
    also have "effect file (cleanup ?e) =
        (cleanup ?e)\<lparr>intervalRef := Some (next_id (cleanup ?e)),
          running := insert (next_id (cleanup ?e)) (running (cleanup ?e)),
          next_id := next_id (cleanup ?e) + 1\<rparr>"
      using e c by (intro effect_start) (simp_all add: cleanup_fields)
    finally have z: "currentFrame (run file (events @ [MouseEnter, Effects])) = 0"
      using y by (simp add: cleanup_fields)
    from x y z show "currentFrame (run file (events @ [Effects])) = 0 \<and>
            currentFrame (run file (events @ [MouseEnter])) = 0 \<and>
            currentFrame (run file (events @ [MouseEnter, Effects])) = 0" by blast
  qed
  show "let s = run file events; n = length (frames (thumbnails file))
      in isHovering s = hovered events \<and>
         currentFrame s < n \<and>
         (hovered events \<or> effect_pending s \<or> (currentFrame s = 0 \<and> running s = {})) \<and>
         (hovered events \<and> \<not> effect_pending s \<longrightarrow>
            (\<exists>t. running s = {t} \<and>
               (\<forall>j. currentFrame (run file (events @ replicate j (Tick t))) =
                      (currentFrame s + j) mod n))) \<and>
         \<not> effect_pending (run file (events @ [Effects])) \<and>
         (\<not> hovered events \<longrightarrow>
            currentFrame (run file (events @ [Effects])) = 0 \<and>
            currentFrame (run file (events @ [MouseEnter])) = 0 \<and>
            currentFrame (run file (events @ [MouseEnter, Effects])) = 0)"
    unfolding Let_def using hov 1 2 3 4 5 by blast
qed

theorem hover_cycles_through_frames_witness:
  "type example_video = ''video'' \<and> frames (thumbnails example_video) \<noteq> [] \<and>
   hovered [Effects, MouseEnter, Effects] \<and>
   \<not> effect_pending (run example_video [Effects, MouseEnter, Effects]) \<and>
   running (run example_video [Effects, MouseEnter, Effects]) = {1} \<and>
   currentFrame (run example_video ([Effects, MouseEnter, Effects] @ replicate 4 (Tick 1))) = 1 \<and>
   \<not> hovered [Effects, MouseEnter, Effects, Tick 1, MouseLeave] \<and>
   currentFrame (run example_video ([Effects, MouseEnter, Effects, Tick 1, MouseLeave] @ [Effects])) = 0"
proof -
  have v: "type example_video = ''video'' \<and> frames (thumbnails example_video) \<noteq> []"
    by (simp add: example_video_def)
  have h: "hovered [Effects, MouseEnter, Effects]" by (simp add: hovered_def)
  have p: "\<not> effect_pending (run example_video [Effects, MouseEnter, Effects])"
    by (simp add: card_simps)
  have r: "running (run example_video [Effects, MouseEnter, Effects]) = {1}"
    by (simp add: card_simps)
  have c: "currentFrame (run example_video [Effects, MouseEnter, Effects]) = 0"
    by (simp add: card_simps)
  have n: "length (frames (thumbnails example_video)) = 3" by (simp add: example_video_def)
  from hover_cycles_through_frames[of example_video "[Effects, MouseEnter, Effects]"] v h p
  obtain t where t: "running (run example_video [Effects, MouseEnter, Effects]) = {t}" and
    j: "\<And>j. currentFrame
          (run example_video ([Effects, MouseEnter, Effects] @ replicate j (Tick t))) =
        (currentFrame (run example_video [Effects, MouseEnter, Effects]) + j) mod
          length (frames (thumbnails example_video))"
    unfolding Let_def by blast
  from t r have "t = 1" by simp
  with j[of 4] c n have a: "currentFrame
     (run example_video ([Effects, MouseEnter, Effects] @ replicate 4 (Tick 1))) = 1"
    by simp
  have l: "\<not> hovered [Effects, MouseEnter, Effects, Tick 1, MouseLeave]"
    by (simp add: hovered_def)
  from hover_cycles_through_frames
    [of example_video "[Effects, MouseEnter, Effects, Tick 1, MouseLeave]"] v l
  have b: "currentFrame
     (run example_video ([Effects, MouseEnter, Effects, Tick 1, MouseLeave] @ [Effects])) = 0"
    unfolding Let_def by blast
  from v h p r a l b show ?thesis by blast
qed

text \<open>
  Claim C4. After any sequence of events, the thumbnail of a video with frames is the
  frame at the current index, which is inside the frames; the thumbnail of any other
  record is \<^verbatim>\<open>thumbnails.main\<close>. With no thumbnail the card renders the placeholder with
  the icon of the record's type, and with one that is not empty the image.
\<close>

theorem thumbnail_shown:
  "(let s = run file events
    in (type file = ''video'' \<and> frames (thumbnails file) \<noteq> [] \<longrightarrow>
          currentFrame s < length (frames (thumbnails file)) \<and>
          thumbnail file s = Some (frames (thumbnails file) ! currentFrame s)) \<and>
       (\<not> (type file = ''video'' \<and> frames (thumbnails file) \<noteq> []) \<longrightarrow>
          thumbnail file s = main (thumbnails file)) \<and>
       (thumbnail file s = None \<longrightarrow> render_thumbnail file s = NoThumbnail (getTypeIcon file)) \<and>
       (\<forall>t. thumbnail file s = Some t \<and> t \<noteq> [] \<longrightarrow>
          render_thumbnail file s = Img (''/'' @ t) (fileName file))) \<and>
   (type file = ''video'' \<longrightarrow> getTypeIcon file = Some VideoIcon) \<and>
   (type file = ''audio'' \<longrightarrow> getTypeIcon file = Some AudioIcon) \<and>
   (type file = ''image'' \<longrightarrow> getTypeIcon file = Some ImageIcon)"
proof -
  let ?s = "run file events"
  have inv: "card_inv file ?s" by (rule card_inv_run)
  have 1: "type file = ''video'' \<and> frames (thumbnails file) \<noteq> [] \<longrightarrow>
          currentFrame ?s < length (frames (thumbnails file)) \<and>
          thumbnail file ?s = Some (frames (thumbnails file) ! currentFrame ?s)"
  proof
    assume a: "type file = ''video'' \<and> frames (thumbnails file) \<noteq> []"
    then have "cycles file" by (simp add: cycles_def)
    with inv have lt: "currentFrame ?s < length (frames (thumbnails file))"
      by (simp add: card_inv_def)
    with a show "currentFrame ?s < length (frames (thumbnails file)) \<and>
          thumbnail file ?s = Some (frames (thumbnails file) ! currentFrame ?s)"
      by (simp add: thumbnail_def array_get_nat)
  qed
  have 2: "\<not> (type file = ''video'' \<and> frames (thumbnails file) \<noteq> []) \<longrightarrow>
          thumbnail file ?s = main (thumbnails file)"
    by (auto simp: thumbnail_def)
  have 3: "thumbnail file ?s = None \<longrightarrow> render_thumbnail file ?s = NoThumbnail (getTypeIcon file)"
    by (simp add: render_thumbnail_def)
  have 4: "\<forall>t. thumbnail file ?s = Some t \<and> t \<noteq> [] \<longrightarrow>
          render_thumbnail file ?s = Img (''/'' @ t) (fileName file)"
    by (simp add: render_thumbnail_def)
  have 5: "(type file = ''video'' \<longrightarrow> getTypeIcon file = Some VideoIcon) \<and>
   (type file = ''audio'' \<longrightarrow> getTypeIcon file = Some AudioIcon) \<and>
   (type file = ''image'' \<longrightarrow> getTypeIcon file = Some ImageIcon)"
    by (simp add: getTypeIcon_def)
  show ?thesis unfolding Let_def using 1 2 3 4 5 by blast
qed

theorem thumbnail_shown_witness:
  "type example_video = ''video'' \<and> frames (thumbnails example_video) \<noteq> [] \<and>
   currentFrame (run example_video [MouseEnter, Effects, Tick 1]) = 1 \<and>
   thumbnail example_video (run example_video [MouseEnter, Effects, Tick 1]) = Some ''thumbs/b_1.jpg'' \<and>
   render_thumbnail example_video (run example_video [MouseEnter, Effects, Tick 1]) =
     Img ''/thumbs/b_1.jpg'' (code_units ''b.mp4'') \<and>
   \<not> (type (example_file ''image'' ''a.jpg'' DateNull) = ''video'' \<and>
      frames (thumbnails (example_file ''image'' ''a.jpg'' DateNull)) \<noteq> []) \<and>
   thumbnail (example_file ''image'' ''a.jpg'' DateNull)
     (run (example_file ''image'' ''a.jpg'' DateNull) [MouseEnter]) = None \<and>
   render_thumbnail (example_file ''image'' ''a.jpg'' DateNull)
     (run (example_file ''image'' ''a.jpg'' DateNull) [MouseEnter]) = NoThumbnail (Some ImageIcon)"
proof -
  let ?img = "example_file ''image'' ''a.jpg'' DateNull"
  note tv = thumbnail_shown[of example_video "[MouseEnter, Effects, Tick 1]", unfolded Let_def]
  note ti = thumbnail_shown[of ?img "[MouseEnter]", unfolded Let_def]
  have v: "type example_video = ''video'' \<and> frames (thumbnails example_video) \<noteq> []"
    by (simp add: example_video_def)
  have c: "currentFrame (run example_video [MouseEnter, Effects, Tick 1]) = 1" by (simp add: card_simps)
  from tv v have "thumbnail example_video (run example_video [MouseEnter, Effects, Tick 1]) =
      Some (frames (thumbnails example_video) ! currentFrame (run example_video [MouseEnter, Effects, Tick 1]))"
    by blast
  then have t: "thumbnail example_video (run example_video [MouseEnter, Effects, Tick 1]) =
      Some ''thumbs/b_1.jpg''"
    unfolding c by (simp add: example_video_def)
  with tv have r: "render_thumbnail example_video (run example_video [MouseEnter, Effects, Tick 1]) =
     Img ''/thumbs/b_1.jpg'' (code_units ''b.mp4'')"
    by (simp add: example_video_def)
  have i: "\<not> (type ?img = ''video'' \<and> frames (thumbnails ?img) \<noteq> [])"
    by (simp add: example_file_def)
  with ti have "thumbnail ?img (run ?img [MouseEnter]) = main (thumbnails ?img)" by blast
  then have n: "thumbnail ?img (run ?img [MouseEnter]) = None" by (simp add: example_file_def)
  have "type ?img = ''image''" by (simp add: example_file_def)
  with ti n have p: "render_thumbnail ?img (run ?img [MouseEnter]) = NoThumbnail (Some ImageIcon)"
    by simp
  from v c t r i n p show ?thesis by blast
qed

end
